theory Spec2Isabelle
  imports Main "HOL-Library.Char_ord" "HOL-Library.List_Lexorder"
    "HOL-Library.Product_Lexorder" "HOL-Library.Multiset"
begin

section \<open>Paths\<close>

text \<open>
  A \<open>pathlib.Path\<close> is the list of its parts. Paths are compared part by part, each part
  as a string by code point, which is the order \<open>txt_files.sort()\<close> sorts by. The operator
  \<open>/\<close> is only applied to names without a separator (\<open>base.mp4\<close>, \<open>dialog_a_b.txt\<close>),
  where it adds one part.
\<close>

type_synonym path = "string list"

definition TEMP_DIR :: path where
  "TEMP_DIR = [''temp'']"

definition joinpath :: "path \<Rightarrow> string \<Rightarrow> path" where
  "joinpath p n = p @ [n]"

definition name :: "path \<Rightarrow> string" where
  "name p = (if p = [] then [] else last p)"

text \<open>\<open>str.rfind\<close>: the index of the last occurrence, \<open>-1\<close> when there is none.\<close>

definition rfind :: "string \<Rightarrow> char \<Rightarrow> int" where
  "rfind s c = (if c \<in> set s
     then int (length s) - 1 - int (length (takeWhile (\<lambda>x. x \<noteq> c) (rev s)))
     else - 1)"

definition suffix :: "path \<Rightarrow> string" where
  "suffix p = (let n = name p; i = rfind n CHR ''.''
     in if 0 < i \<and> i < int (length n) - 1 then drop (nat i) n else [])"

definition stem :: "path \<Rightarrow> string" where
  "stem p = (let n = name p; i = rfind n CHR ''.''
     in if 0 < i \<and> i < int (length n) - 1 then take (nat i) n else n)"

text \<open>
  \<open>with_suffix\<close> is called on \<open>TEMP_DIR / base.mp4\<close> with the literal \<open>.txt\<close> only, so its
  \<open>ValueError\<close> cases (an empty name, a malformed suffix) do not arise.
\<close>

definition with_suffix :: "path \<Rightarrow> string \<Rightarrow> path" where
  "with_suffix p s = (let n = name p; old = suffix p
     in butlast p @ [if old = [] then n @ s else take (length n - length old) n @ s])"

section \<open>Segment names\<close>

text \<open>
  A \<open>datetime\<close> holds its civil fields; \<open>strftime\<close> is the format
  \<open>%Y%m%dT%H%M%SZ\<close> of \<open>recorder_loop\<close>: the year on four digits, every other
  field zero-padded on two, the microseconds dropped.
\<close>

record datetime =
  year :: nat
  month :: nat
  day :: nat
  hour :: nat
  minute :: nat
  second :: nat
  microsecond :: nat

definition digit :: "nat \<Rightarrow> char" where
  "digit d = ''0123456789'' ! d"

fun dec :: "nat \<Rightarrow> string" where
  "dec n = (if n < 10 then [digit n] else dec (n div 10) @ [digit (n mod 10)])"

declare dec.simps [simp del]

definition zfill :: "nat \<Rightarrow> string \<Rightarrow> string" where
  "zfill w s = replicate (w - length s) CHR ''0'' @ s"

definition strftime :: "datetime \<Rightarrow> string" where
  "strftime t = zfill 4 (dec (year t)) @ zfill 2 (dec (month t)) @ zfill 2 (dec (day t))
     @ ''T'' @ zfill 2 (dec (hour t)) @ zfill 2 (dec (minute t)) @ zfill 2 (dec (second t))
     @ ''Z''"

text \<open>
  The calendar of \<open>datetime\<close>: leap years, the days before a year and before a month,
  the ordinal of a date (day 1 is 0001-01-01), and the microseconds from the start of
  ordinal 0 to a timestamp, the scale on which the subtraction of two \<open>datetime\<close>
  objects measures elapsed time.
\<close>

definition is_leap :: "nat \<Rightarrow> bool" where
  "is_leap y \<longleftrightarrow> y mod 4 = 0 \<and> (y mod 100 \<noteq> 0 \<or> y mod 400 = 0)"

definition days_before_year :: "nat \<Rightarrow> nat" where
  "days_before_year yr = (let y = yr - 1 in y * 365 + y div 4 - y div 100 + y div 400)"

definition days_in_month :: "nat \<Rightarrow> nat \<Rightarrow> nat" where
  "days_in_month y m = (if m = 2 \<and> is_leap y then 29
     else [0, 31, 28, 31, 30, 31, 30, 31, 31, 30, 31, 30, 31] ! m)"

definition days_before_month :: "nat \<Rightarrow> nat \<Rightarrow> nat" where
  "days_before_month y m = [0, 0, 31, 59, 90, 120, 151, 181, 212, 243, 273, 304, 334] ! m
     + (if m > 2 \<and> is_leap y then 1 else 0)"

definition ymd2ord :: "nat \<Rightarrow> nat \<Rightarrow> nat \<Rightarrow> nat" where
  "ymd2ord y m d = days_before_year y + days_before_month y m + d"

definition toordinal :: "datetime \<Rightarrow> nat" where
  "toordinal t = ymd2ord (year t) (month t) (day t)"

definition microseconds :: "datetime \<Rightarrow> nat" where
  "microseconds t =
     (toordinal t * 86400 + hour t * 3600 + minute t * 60 + second t) * 1000000 + microsecond t"

text \<open>
  The field ranges of a \<open>datetime\<close> whose year has four digits, as every
  \<open>datetime.now(UTC)\<close> of a running system has. (Below the year 1000 the padding of
  \<open>%Y\<close> depends on the C library.)
\<close>

definition valid_datetime :: "datetime \<Rightarrow> bool" where
  "valid_datetime t \<longleftrightarrow> 1000 \<le> year t \<and> year t \<le> 9999 \<and> 1 \<le> month t \<and> month t \<le> 12
     \<and> 1 \<le> day t \<and> day t \<le> days_in_month (year t) (month t)
     \<and> hour t < 24 \<and> minute t < 60 \<and> second t < 60 \<and> microsecond t < 1000000"

text \<open>
  Chronological order at seconds resolution: the order of the fields down to the second,
  most significant first, as \<open>datetime\<close> compares.
\<close>

definition to_second :: "datetime \<Rightarrow> nat \<times> nat \<times> nat \<times> nat \<times> nat \<times> nat" where
  "to_second t = (year t, month t, day t, hour t, minute t, second t)"

section \<open>The pipeline\<close>

subsection \<open>Files, errors and the outside world\<close>

text \<open>
  Every file of the pipeline is read and written in text mode. The file system gives,
  for each path, the text that reading the file returns.
\<close>

type_synonym fs = "path \<rightharpoonup> string"

datatype error = FileNotFoundError path | APIError string

text \<open>
  What the outside world does with one segment: the exit status of the capture process,
  the file it leaves at the output path (\<open>None\<close> when there is none), and the answer of
  the transcription service when asked for that file.
\<close>

record segment_io =
  returncode :: int
  artifact :: "string option"
  response :: "error + string"

type_synonym worker = "path \<times> segment_io"

subsection \<open>\<open>transcribe_file\<close>\<close>

definition NL :: char where
  "NL = CHR 0x0A"

definition CR :: char where
  "CR = CHR 0x0D"

text \<open>
  Text mode with universal newlines: a string is written to disk as it is, and read back
  with every CR LF and every lone CR turned into LF. So the text that a later read of the
  transcript returns is the response with its line ends translated.
\<close>

fun universal_newlines :: "string \<Rightarrow> string" where
  "universal_newlines [] = []"
| "universal_newlines [c] = (if c = CR then [NL] else [c])"
| "universal_newlines (c # d # cs) =
     (if c = CR \<and> d = NL then NL # universal_newlines cs
      else if c = CR then NL # universal_newlines (d # cs)
      else c # universal_newlines (d # cs))"

fun transcribe_file :: "worker \<Rightarrow> fs \<Rightarrow> (error + path) \<times> fs" where
  "transcribe_file (p, io) fs =
     (case artifact io of
        None \<Rightarrow> (Inl (FileNotFoundError p), fs)
      | Some audio_file \<Rightarrow>
          (case response io of
             Inl e \<Rightarrow> (Inl e, fs)
           | Inr transcript_resp \<Rightarrow>
               (let txt_path = with_suffix p ''.txt''
                in (Inr txt_path, fs(txt_path \<mapsto> universal_newlines transcript_resp)))))"

subsection \<open>\<open>recorder_loop\<close> and the signal handler\<close>

text \<open>
  The event loop runs one callback at a time, so a run is a sequence of events: the
  capture process of the segment in progress exits (with what it left behind, and the
  clock reading of the next iteration), or SIGINT arrives. \<open>current\<close> is the segment
  being captured, \<open>None\<close> once the recorder coroutine has ended; \<open>started\<close> lists every
  capture ever started.
\<close>

datatype event = ProcExit segment_io datetime | Sigint

record pipeline =
  started :: "string list"
  current :: "string option"
  tasks :: "worker list"
  stop_event :: bool

text \<open>The head of the loop body: read the clock, name the segment, start the capture.\<close>

definition start_capture :: "datetime \<Rightarrow> pipeline \<Rightarrow> pipeline" where
  "start_capture start_ts st =
     (let base = strftime start_ts
      in st\<lparr>started := started st @ [base], current := Some base\<rparr>)"

text \<open>
  \<open>await proc.wait()\<close> returns: its result is dropped, a transcription task is created
  for the output file and appended to \<open>tasks\<close>, and the loop starts the next segment.
  \<open>_sigint_handler\<close> cancels the recorder, whose pending \<open>await\<close> raises
  \<open>CancelledError\<close> to the handler outside the \<open>while\<close>, and sets \<open>stop_event\<close>.
\<close>

fun step :: "pipeline \<Rightarrow> event \<Rightarrow> pipeline" where
  "step st (ProcExit io now) =
     (case current st of
        None \<Rightarrow> st
      | Some base \<Rightarrow>
          (let outfile = joinpath TEMP_DIR (base @ ''.mp4'')
           in start_capture now (st\<lparr>tasks := tasks st @ [(outfile, io)]\<rparr>)))"
| "step st Sigint = st\<lparr>current := None, stop_event := True\<rparr>"

definition recorder_loop :: "datetime \<Rightarrow> event list \<Rightarrow> pipeline" where
  "recorder_loop t0 evs =
     foldl step (start_capture t0 \<lparr>started = [], current = None, tasks = [], stop_event = False\<rparr>) evs"

subsection \<open>\<open>asyncio.gather\<close>\<close>

text \<open>
  \<open>order\<close> is the order in which the workers are seen to finish. With
  \<open>return_exceptions=False\<close> the first exception is raised to the caller at once and the
  workers still running are not awaited; otherwise \<open>gather\<close> returns, once every worker
  is done, their results in the order of \<open>tasks\<close>. While a worker is missing it does not
  return (\<open>None\<close>). \<open>joined\<close> lists the workers whose completion was consumed.
\<close>

fun gather_loop ::
  "worker list \<Rightarrow> nat list \<Rightarrow> path option list \<Rightarrow> nat list \<Rightarrow> fs
     \<Rightarrow> (error + path option list) \<times> nat list \<times> fs" where
  "gather_loop ws [] res joined fs = (Inr res, joined, fs)"
| "gather_loop ws (i # rest) res joined fs =
     (if i < length ws \<and> i \<notin> set joined then
        (case transcribe_file (ws ! i) fs of
           (Inl e, fs') \<Rightarrow> (Inl e, joined @ [i], fs')
         | (Inr p, fs') \<Rightarrow> gather_loop ws rest (res[i := Some p]) (joined @ [i]) fs')
      else gather_loop ws rest res joined fs)"

definition gather ::
  "worker list \<Rightarrow> nat list \<Rightarrow> fs \<Rightarrow> ((error + path list) \<times> nat list \<times> fs) option" where
  "gather ws order fs =
     (case gather_loop ws order (replicate (length ws) None) [] fs of
        (Inl e, joined, fs') \<Rightarrow> Some (Inl e, joined, fs')
      | (Inr res, joined, fs') \<Rightarrow>
          if None \<in> set res then None else Some (Inr (map the res), joined, fs'))"

subsection \<open>Step 4: concatenating the transcripts\<close>

datatype outcome = Unhandled error | NoTranscripts | Ready path

definition fwrite :: "path \<Rightarrow> string \<Rightarrow> fs \<Rightarrow> fs" where
  "fwrite p s fs = fs(p \<mapsto> (case fs p of None \<Rightarrow> [] | Some c \<Rightarrow> c) @ s)"

fun write_entries :: "path list \<Rightarrow> path \<Rightarrow> fs \<Rightarrow> error option \<times> fs" where
  "write_entries [] fout fs = (None, fs)"
| "write_entries (t # ts) fout fs =
     (case fs t of
        None \<Rightarrow> (Some (FileNotFoundError t), fs)
      | Some _ \<Rightarrow>
          (let fs1 = fwrite fout (''----- '' @ stem t @ '' -----'' @ [NL]) fs;
               fs2 = fwrite fout (case fs1 t of None \<Rightarrow> [] | Some c \<Rightarrow> c) fs1;
               fs3 = fwrite fout [NL, NL] fs2
           in write_entries ts fout fs3))"

definition concatenate :: "path list \<Rightarrow> fs \<Rightarrow> outcome \<times> fs" where
  "concatenate txt_files fs =
     (if txt_files \<noteq> [] then
        (let first = stem (hd txt_files);
             lst = stem (last txt_files);
             final_path = joinpath TEMP_DIR (''dialog_'' @ first @ ''_'' @ lst @ ''.txt'')
         in (case write_entries txt_files final_path (fs(final_path \<mapsto> [])) of
               (Some e, fs') \<Rightarrow> (Unhandled e, fs')
             | (None, fs') \<Rightarrow> (Ready final_path, fs')))
      else (NoTranscripts, fs))"

text \<open>The tail of \<open>main\<close> from \<open>txt_files.sort()\<close> on.\<close>

definition assemble :: "path list \<Rightarrow> fs \<Rightarrow> outcome \<times> fs" where
  "assemble txt_files fs = concatenate (sort txt_files) fs"

subsection \<open>\<open>main\<close>\<close>

text \<open>
  \<open>main\<close> waits for \<open>stop_event\<close>, then for the recorder, then gathers the tasks and
  concatenates. It has no result (\<open>None\<close>) while no SIGINT has arrived or while
  \<open>gather\<close> waits for a worker.
\<close>

definition main :: "datetime \<Rightarrow> event list \<Rightarrow> nat list \<Rightarrow> fs \<Rightarrow> (outcome \<times> fs) option" where
  "main t0 evs order fs =
     (let st = recorder_loop t0 evs
      in if \<not> stop_event st then None
         else (case gather (tasks st) order fs of
                 None \<Rightarrow> None
               | Some (Inl e, joined, fs') \<Rightarrow> Some (Unhandled e, fs')
               | Some (Inr txt_files, joined, fs') \<Rightarrow> Some (assemble txt_files fs')))"

section \<open>Notions used in the statements\<close>

text \<open>
  Whether a worker fails and with what, the transcript that its file holds otherwise
  (the response, as a read of the file returns it), the path it returns, and the
  identifier of its segment.
\<close>

definition failure :: "worker \<Rightarrow> error option" where
  "failure w = (case artifact (snd w) of
       None \<Rightarrow> Some (FileNotFoundError (fst w))
     | Some _ \<Rightarrow> (case response (snd w) of Inl e \<Rightarrow> Some e | Inr _ \<Rightarrow> None))"

definition transcript :: "worker \<Rightarrow> string" where
  "transcript w =
     (case response (snd w) of Inl _ \<Rightarrow> [] | Inr resp \<Rightarrow> universal_newlines resp)"

definition txt_path :: "worker \<Rightarrow> path" where
  "txt_path w = with_suffix (fst w) ''.txt''"

definition segment_id :: "worker \<Rightarrow> string" where
  "segment_id w = stem (fst w)"

text \<open>
  The file system after the workers listed in \<open>order\<close> have written their
  transcripts, and the results \<open>gather\<close> has collected from them.
\<close>

fun workers_fs :: "worker list \<Rightarrow> nat list \<Rightarrow> fs \<Rightarrow> fs" where
  "workers_fs ws [] fs = fs"
| "workers_fs ws (i # order) fs = workers_fs ws order (fs(txt_path (ws ! i) \<mapsto> transcript (ws ! i)))"

fun results_of :: "worker list \<Rightarrow> nat list \<Rightarrow> path option list \<Rightarrow> path option list" where
  "results_of ws [] res = res"
| "results_of ws (i # order) res = results_of ws order (res[i := Some (txt_path (ws ! i))])"

text \<open>
  The file names of a segment, the name of the final document, one entry of the
  document and the document made of a list of (identifier, text) entries.
\<close>

definition mp4_file :: "string \<Rightarrow> path" where
  "mp4_file base = joinpath TEMP_DIR (base @ ''.mp4'')"

definition txt_file :: "string \<Rightarrow> path" where
  "txt_file base = joinpath TEMP_DIR (base @ ''.txt'')"

definition dialog :: "string \<Rightarrow> string \<Rightarrow> path" where
  "dialog first lst = joinpath TEMP_DIR (''dialog_'' @ first @ ''_'' @ lst @ ''.txt'')"

definition contents :: "fs \<Rightarrow> path \<Rightarrow> string" where
  "contents fs p = (case fs p of None \<Rightarrow> [] | Some c \<Rightarrow> c)"

definition entry :: "string \<Rightarrow> string \<Rightarrow> string" where
  "entry sid body = ''----- '' @ sid @ '' -----'' @ [NL] @ body @ [NL, NL]"

definition document :: "(string \<times> string) list \<Rightarrow> string" where
  "document entries = concat (map (\<lambda>(sid, body). entry sid body) entries)"

text \<open>
  An event whose clock reading is a valid timestamp.
\<close>

fun clock_valid :: "event \<Rightarrow> bool" where
  "clock_valid (ProcExit io now) = valid_datetime now"
| "clock_valid Sigint = True"

text \<open>
  A sample run: captures starting at 10:00, 10:05 and 10:10 on 2024-01-01 finish
  and are transcribed, SIGINT arrives during the fourth; a capture that fails and a
  transcription that fails.
\<close>

definition ex_clock :: "nat \<Rightarrow> datetime" where
  "ex_clock m = \<lparr>year = 2024, month = 1, day = 1, hour = 10, minute = m, second = 0,
     microsecond = 0\<rparr>"

definition ex_ok :: "string \<Rightarrow> segment_io" where
  "ex_ok body = \<lparr>returncode = 0, artifact = Some ''aac'', response = Inr body\<rparr>"

definition ex_run :: "event list" where
  "ex_run = [ProcExit (ex_ok ''one'') (ex_clock 5), ProcExit (ex_ok ''two'') (ex_clock 10),
     ProcExit (ex_ok ''three'') (ex_clock 15), Sigint]"

definition ex_no_capture :: segment_io where
  "ex_no_capture = \<lparr>returncode = 1, artifact = None, response = Inl (APIError ''unused'')\<rparr>"

definition ex_no_transcript :: segment_io where
  "ex_no_transcript = \<lparr>returncode = 0, artifact = Some ''aac'', response = Inl (APIError ''503'')\<rparr>"

definition ex_files :: fs where
  "ex_files = [txt_file ''20240101T100000Z'' \<mapsto> ''one'', txt_file ''20240101T100500Z'' \<mapsto> ''two'']"

section \<open>Digits and fixed-width fields\<close>

lemma divmod_less:
  fixes a b k :: nat
  assumes "0 < k"
  shows "(a div k < b div k \<or> a div k = b div k \<and> a mod k < b mod k) \<longleftrightarrow> a < b"
proof -
  have a: "a = k * (a div k) + a mod k" and b: "b = k * (b div k) + b mod k" by simp_all
  have ma: "a mod k < k" and mb: "b mod k < k" using assms by simp_all
  show ?thesis
  proof (cases "a div k" "b div k" rule: linorder_cases)
    case less
    then have "Suc (a div k) \<le> b div k" by simp
    then have "k * Suc (a div k) \<le> k * (b div k)" by (rule mult_le_mono2)
    then have "k * (a div k) + k \<le> k * (b div k)" by simp
    then have "a < b" using a b ma by linarith
    with less show ?thesis by simp
  next
    case equal
    then have "a < b \<longleftrightarrow> a mod k < b mod k"
      using a b by (metis nat_add_left_cancel_less)
    with equal show ?thesis by simp
  next
    case greater
    then have "Suc (b div k) \<le> a div k" by simp
    then have "k * Suc (b div k) \<le> k * (a div k)" by (rule mult_le_mono2)
    then have "k * (b div k) + k \<le> k * (a div k)" by simp
    then have "b < a" using a b mb by linarith
    with greater show ?thesis by simp
  qed
qed

lemma divmod_eq:
  fixes a b k :: nat
  shows "(a div k = b div k \<and> a mod k = b mod k) \<longleftrightarrow> a = b"
  by (metis div_mult_mod_eq)

lemma of_char_digit: "d < 10 \<Longrightarrow> of_char (digit d) = (48 + d :: nat)"
proof -
  assume "d < 10"
  then have "d \<in> {0,1,2,3,4,5,6,7,8,9}" by auto
  then show ?thesis by (auto simp: digit_def)
qed

lemma digit_less: "a < 10 \<Longrightarrow> b < 10 \<Longrightarrow> digit a < digit b \<longleftrightarrow> a < b"
  by (simp add: less_char_def of_char_digit)

lemma digit_eq: "a < 10 \<Longrightarrow> b < 10 \<Longrightarrow> digit a = digit b \<longleftrightarrow> a = b"
  by (metis of_char_digit add_left_cancel)

lemma zfill2: "n < 100 \<Longrightarrow> zfill 2 (dec n) = [digit (n div 10), digit (n mod 10)]"
  apply (subst dec.simps) apply (subst dec.simps)
  apply (auto simp: zfill_def)
  apply (simp add: digit_def)
  done

lemma dec4: "1000 \<le> n \<Longrightarrow> n < 10000 \<Longrightarrow>
  zfill 4 (dec n) = [digit (n div 1000), digit (n div 100 mod 10), digit (n div 10 mod 10), digit (n mod 10)]"
  apply (subst dec.simps) apply (subst dec.simps)apply (subst dec.simps)apply (subst dec.simps)
  apply (auto simp: zfill_def div_mult2_eq[symmetric])
  done

lemma zfill4: 
  assumes "1000 \<le> n" "n < 10000"
  shows "zfill 4 (dec n) = zfill 2 (dec (n div 100)) @ zfill 2 (dec (n mod 100))"
proof -
  have "n mod 100 = 10 * (n div 10 mod 10) + n mod 10"
    using mod_mult2_eq [of n 10 10] by simp
  then have a: "n div 100 div 10 = n div 1000" "n mod 100 div 10 = n div 10 mod 10"
    "n mod 100 mod 10 = n mod 10"
    by (simp_all add: div_mult2_eq [symmetric])
  have b: "n div 100 < 100" "n mod 100 < 100" using assms by auto
  show ?thesis using assms by (simp add: dec4 zfill2[OF b(1)] zfill2[OF b(2)] a)
qed

lemma zfill2_less: 
  assumes "a < 100" "b < 100"
  shows "zfill 2 (dec a) < zfill 2 (dec b) \<longleftrightarrow> a < b"
proof -
  have "a div 10 < 10" "b div 10 < 10" "a mod 10 < 10" "b mod 10 < 10" using assms by auto
  then have "zfill 2 (dec a) < zfill 2 (dec b) \<longleftrightarrow>
     a div 10 < b div 10 \<or> a div 10 = b div 10 \<and> a mod 10 < b mod 10"
    using assms by (simp add: zfill2 digit_less digit_eq)
  also have "\<dots> \<longleftrightarrow> a < b" by (rule divmod_less) simp
  finally show ?thesis .
qed

lemma zfill2_eq: 
  assumes "a < 100" "b < 100"
  shows "zfill 2 (dec a) = zfill 2 (dec b) \<longleftrightarrow> a = b"
proof -
  have "a div 10 < 10" "b div 10 < 10" "a mod 10 < 10" "b mod 10 < 10" using assms by auto
  then have "zfill 2 (dec a) = zfill 2 (dec b) \<longleftrightarrow>
     a div 10 = b div 10 \<and> a mod 10 = b mod 10"
    using assms by (simp add: zfill2 digit_eq)
  also have "\<dots> \<longleftrightarrow> a = b" by (rule divmod_eq)
  finally show ?thesis .
qed

lemma length_zfill2: "n < 100 \<Longrightarrow> length (zfill 2 (dec n)) = 2"
  by (simp add: zfill2)

lemma append_less_append:
  fixes x y :: "'a :: linorder list"
  shows "length x = length y \<Longrightarrow> x @ r < y @ s \<longleftrightarrow> x < y \<or> x = y \<and> r < s"
proof (induction x arbitrary: y)
  case Nil then show ?case by simp
next
  case (Cons a x)
  then obtain b y' where y: "y = b # y'" by (cases y) auto
  with Cons show ?case by auto
qed

lemma zfill4_less: 
  assumes "1000 \<le> a" "a < 10000" "1000 \<le> b" "b < 10000"
  shows "zfill 4 (dec a) < zfill 4 (dec b) \<longleftrightarrow> a < b"
proof -
  have r: "a div 100 < 100" "b div 100 < 100" "a mod 100 < 100" "b mod 100 < 100" using assms by auto
  then have "zfill 4 (dec a) < zfill 4 (dec b) \<longleftrightarrow>
     a div 100 < b div 100 \<or> a div 100 = b div 100 \<and> a mod 100 < b mod 100"
    using assms by (simp add: zfill4 append_less_append length_zfill2 zfill2_less zfill2_eq)
  also have "\<dots> \<longleftrightarrow> a < b" by (rule divmod_less) simp
  finally show ?thesis .
qed

lemma zfill4_eq: 
  assumes "1000 \<le> a" "a < 10000" "1000 \<le> b" "b < 10000"
  shows "zfill 4 (dec a) = zfill 4 (dec b) \<longleftrightarrow> a = b"
proof -
  have r: "a div 100 < 100" "b div 100 < 100" "a mod 100 < 100" "b mod 100 < 100" using assms by auto
  then have "zfill 4 (dec a) = zfill 4 (dec b) \<longleftrightarrow>
     a div 100 = b div 100 \<and> a mod 100 = b mod 100"
    using assms by (simp add: zfill4 length_zfill2 zfill2_eq)
  also have "\<dots> \<longleftrightarrow> a = b" by (rule divmod_eq)
  finally show ?thesis .
qed

lemma length_zfill4: "1000 \<le> n \<Longrightarrow> n < 10000 \<Longrightarrow> length (zfill 4 (dec n)) = 4"
  by (simp add: zfill4 length_zfill2)

lemma mod100_4: "(a::nat) mod 100 = 0 \<Longrightarrow> a mod 4 = 0"
  using mod_mod_cancel [of 4 100 a] by simp

lemma mod400_100: "(a::nat) mod 400 = 0 \<Longrightarrow> a mod 100 = 0"
  using mod_mod_cancel [of 100 400 a] by simp

lemma days_before_year_Suc:
  assumes "1 \<le> y"
  shows "days_before_year (Suc y) = days_before_year y + (if is_leap y then 366 else 365)"
proof -
  obtain z where y: "y = Suc z" using assms by (cases y) auto
  define a b c where "a = z div 4" and "b = z div 100" and "c = z div 400"
  have le: "b \<le> a" unfolding a_def b_def by (rule div_le_mono2) simp_all
  have s: "Suc z div 4 = (if Suc z mod 4 = 0 then Suc a else a)"
    "Suc z div 100 = (if Suc z mod 100 = 0 then Suc b else b)"
    "Suc z div 400 = (if Suc z mod 400 = 0 then Suc c else c)"
    by (simp_all only: div_Suc a_def b_def c_def)
  have 1: "days_before_year (Suc y) = Suc z * 365 + Suc z div 4 - Suc z div 100 + Suc z div 400"
    by (simp add: y days_before_year_def)
  have 2: "days_before_year y = z * 365 + a - b + c"
    by (simp add: y days_before_year_def a_def b_def c_def)
  have 3: "is_leap y \<longleftrightarrow> Suc z mod 4 = 0 \<and> (Suc z mod 100 \<noteq> 0 \<or> Suc z mod 400 = 0)"
    by (simp only: y is_leap_def)
  show ?thesis
    unfolding 1 2 3 s
    using le mod100_4 [of "Suc z"] mod400_100 [of "Suc z"]
    by (cases "Suc z mod 4 = 0"; cases "Suc z mod 100 = 0"; cases "Suc z mod 400 = 0") simp_all
qed

lemma days_before_year_mono:
  assumes "1 \<le> y" "y \<le> y'"
  shows "days_before_year y \<le> days_before_year y'"
  using assms(2,1)
  by (induction rule: dec_induct) (simp_all add: days_before_year_Suc)

lemma month_cases:
  assumes "1 \<le> m" "m \<le> 12"
  shows "m \<in> {1, 2, 3, 4, 5, 6, 7, 8, 9, 10, 11, 12::nat}"
  using assms by (simp only: insert_iff empty_iff) arith

lemma days_in_year_bound:
  assumes "1 \<le> m" "m \<le> 12" "d \<le> days_in_month y m"
  shows "days_before_month y m + d \<le> (if is_leap y then 366 else 365)"
  using month_cases [OF assms(1,2)] assms(3)
  by (auto simp: days_before_month_def days_in_month_def)

lemma days_before_month_Suc:
  assumes "1 \<le> m" "m < 12"
  shows "days_before_month y (Suc m) = days_before_month y m + days_in_month y m"
proof -
  have "m \<in> {1, 2, 3, 4, 5, 6, 7, 8, 9, 10, 11::nat}"
    using assms by (simp only: insert_iff empty_iff) arith
  then show ?thesis
    by (auto simp: days_before_month_def days_in_month_def)
qed

lemma days_before_month_mono:
  assumes "1 \<le> m" "m \<le> m'" "m' \<le> 12"
  shows "days_before_month y m \<le> days_before_month y m'"
  using assms(2,1,3)
  by (induction rule: dec_induct) (simp_all add: days_before_month_Suc)

lemma ymd2ord_less:
  assumes "1 \<le> y" "1 \<le> m" "m \<le> 12" "d \<le> days_in_month y m"
    and "1 \<le> m'" "m' \<le> 12" "1 \<le> d'"
    and "(y, m, d) < (y', m', d')"
  shows "ymd2ord y m d < ymd2ord y' m' d'"
proof -
  consider "y < y'" | "y = y'" "m < m'" | "y = y'" "m = m'" "d < d'"
    using assms(8) by (auto simp: le_less)
  then show ?thesis
  proof cases
    case 1
    have "days_before_month y m + d \<le> (if is_leap y then 366 else 365)"
      by (rule days_in_year_bound [OF assms(2,3,4)])
    then have "ymd2ord y m d \<le> days_before_year (Suc y)"
      using assms(1) by (simp add: ymd2ord_def days_before_year_Suc)
    also have "\<dots> \<le> days_before_year y'"
      using 1 by (intro days_before_year_mono) simp_all
    also have "\<dots> < ymd2ord y' m' d'" using assms(7) by (simp add: ymd2ord_def)
    finally show ?thesis .
  next
    case 2
    have "days_before_month y m + d \<le> days_before_month y (Suc m)"
      using assms(2,4,6) 2 by (simp add: days_before_month_Suc)
    also have "\<dots> \<le> days_before_month y m'"
      using 2 assms(6) by (intro days_before_month_mono) simp_all
    finally show ?thesis using 2 assms(7) by (simp add: ymd2ord_def)
  next
    case 3
    then show ?thesis by (simp add: ymd2ord_def)
  qed
qed

lemma days_in_month_le:
  assumes "1 \<le> m" "m \<le> 12"
  shows "days_in_month y m \<le> 31"
  using month_cases [OF assms] by (auto simp: days_in_month_def)

lemma valid_ranges:
  assumes "valid_datetime t"
  shows "1000 \<le> year t" "year t < 10000" "month t < 100" "day t < 100" "hour t < 100"
    "minute t < 100" "second t < 100"
proof -
  have "day t \<le> 31"
    using assms days_in_month_le [of "month t" "year t"] by (simp add: valid_datetime_def)
  then show "day t < 100" by simp
qed (use assms in \<open>simp_all add: valid_datetime_def\<close>)

lemma strftime_less:
  assumes "valid_datetime a" "valid_datetime b"
  shows "strftime a < strftime b \<longleftrightarrow> to_second a < to_second b"
  using valid_ranges [OF assms(1)] valid_ranges [OF assms(2)] unfolding strftime_def to_second_def
  by (simp add: append_less_append length_zfill2 length_zfill4 zfill2_less zfill2_eq
      zfill4_less zfill4_eq) (auto)

lemma strftime_eq:
  assumes "valid_datetime a" "valid_datetime b"
  shows "strftime a = strftime b \<longleftrightarrow> to_second a = to_second b"
  using valid_ranges [OF assms(1)] valid_ranges [OF assms(2)] unfolding strftime_def to_second_def
  by (simp add: length_zfill2 length_zfill4 zfill2_eq zfill4_eq) 

lemma length_strftime: "valid_datetime a \<Longrightarrow> length (strftime a) = 16"
  using valid_ranges [of a] unfolding strftime_def
  by (simp add: length_zfill2 length_zfill4) 

lemma toordinal_less:
  assumes "valid_datetime a" "valid_datetime b"
    and "(year a, month a, day a) < (year b, month b, day b)"
  shows "toordinal a < toordinal b"
  unfolding toordinal_def
  by (rule ymd2ord_less) (use assms in \<open>simp_all add: valid_datetime_def\<close>)

lemma seconds_mono:
  assumes "valid_datetime a" "valid_datetime b" and "to_second a \<le> to_second b"
  shows "toordinal a * 86400 + hour a * 3600 + minute a * 60 + second a
    \<le> toordinal b * 86400 + hour b * 3600 + minute b * 60 + second b"
proof (cases "(year a, month a, day a) < (year b, month b, day b)")
  case True
  then have "toordinal a < toordinal b" by (rule toordinal_less [OF assms(1,2)])
  moreover have "hour a < 24" "minute a < 60" "second a < 60"
    using assms(1) by (simp_all add: valid_datetime_def)
  ultimately show ?thesis by linarith
next
  case False
  with assms(3) have d: "year a = year b" "month a = month b" "day a = day b"
    and t: "(hour a, minute a, second a) \<le> (hour b, minute b, second b)"
    by (auto simp: to_second_def le_less)
  have "minute a < 60" "second a < 60" "minute b < 60" "second b < 60"
    using assms(1,2) by (simp_all add: valid_datetime_def)
  moreover have "hour a < hour b \<or> hour a = hour b \<and> (minute a < minute b
      \<or> minute a = minute b \<and> second a \<le> second b)"
    using t by (auto simp: le_less)
  moreover have "toordinal a = toordinal b" using d by (simp add: toordinal_def)
  ultimately show ?thesis by auto
qed

lemma one_second_apart:
  assumes "valid_datetime a" "valid_datetime b"
    and "microseconds a + 1000000 \<le> microseconds b"
  shows "to_second a < to_second b"
proof (rule ccontr)
  assume "\<not> to_second a < to_second b"
  then have "to_second b \<le> to_second a" by simp
  from seconds_mono [OF assms(2,1) this]
  have "(toordinal b * 86400 + hour b * 3600 + minute b * 60 + second b) * 1000000
    \<le> (toordinal a * 86400 + hour a * 3600 + minute a * 60 + second a) * 1000000"
    by (rule mult_le_mono1)
  moreover have "microsecond b < 1000000" using assms(2) by (simp add: valid_datetime_def)
  ultimately have "microseconds b < microseconds a + 1000000"
    unfolding microseconds_def by (simp only: add_less_le_mono trans_less_add1 add.assoc add.commute [of "microsecond a"])
  with assms(3) show False by simp
qed

section \<open>File names\<close>

lemma rfind_ext:
  assumes "CHR ''.'' \<notin> set e"
  shows "rfind (b @ CHR ''.'' # e) CHR ''.'' = int (length b)"
proof -
  have "takeWhile (\<lambda>x. x \<noteq> CHR ''.'') (rev e @ CHR ''.'' # rev b) = rev e"
    using assms by (subst takeWhile_append2) auto
  then show ?thesis by (simp add: rfind_def)
qed

lemma suffix_ext:
  assumes "CHR ''.'' \<notin> set e" "b \<noteq> []" "e \<noteq> []"
  shows "suffix (joinpath d (b @ CHR ''.'' # e)) = CHR ''.'' # e"
  using assms by (simp add: suffix_def name_def joinpath_def rfind_ext Let_def)

lemma stem_ext:
  assumes "CHR ''.'' \<notin> set e" "b \<noteq> []" "e \<noteq> []"
  shows "stem (joinpath d (b @ CHR ''.'' # e)) = b"
  using assms by (simp add: stem_def name_def joinpath_def rfind_ext Let_def)

lemma with_suffix_ext:
  assumes "CHR ''.'' \<notin> set e" "b \<noteq> []" "e \<noteq> []"
  shows "with_suffix (joinpath d (b @ CHR ''.'' # e)) s = joinpath d (b @ s)"
  using assms suffix_ext[OF assms, of d]
  by (simp add: with_suffix_def Let_def) (simp add: name_def joinpath_def)

lemma stem_txt_file: "b \<noteq> [] \<Longrightarrow> stem (txt_file b) = b"
  using stem_ext [of "''txt''" b TEMP_DIR] by (simp add: txt_file_def)

lemma stem_mp4_file: "b \<noteq> [] \<Longrightarrow> stem (mp4_file b) = b"
  using stem_ext [of "''mp4''" b TEMP_DIR] by (simp add: mp4_file_def)

lemma with_suffix_mp4_file: "b \<noteq> [] \<Longrightarrow> with_suffix (mp4_file b) ''.txt'' = txt_file b"
  using with_suffix_ext [of "''mp4''" b TEMP_DIR "''.txt''"] by (simp add: mp4_file_def txt_file_def)

lemma txt_file_inj: "txt_file a = txt_file b \<longleftrightarrow> a = b"
  by (simp add: txt_file_def joinpath_def)

lemma txt_file_le:
  assumes "length a = length b"
  shows "txt_file a \<le> txt_file b \<longleftrightarrow> a \<le> b"
proof -
  have "txt_file a \<le> txt_file b \<longleftrightarrow> a @ ''.txt'' < b @ ''.txt'' \<or> a @ ''.txt'' = b @ ''.txt''"
    by (auto simp: txt_file_def joinpath_def TEMP_DIR_def)
  also have "\<dots> \<longleftrightarrow> a < b \<or> a = b"
    by (simp only: append_less_append [OF assms] append_same_eq) simp
  finally show ?thesis by auto
qed

lemma dialog_neq_txt_file:
  assumes "length x = length b"
  shows "dialog x y \<noteq> txt_file b"
proof
  assume "dialog x y = txt_file b"
  then have "''dialog_'' @ x @ ''_'' @ y = b" by (simp add: dialog_def txt_file_def joinpath_def)
  then have "length (''dialog_'' @ x @ ''_'' @ y) = length b" by (rule arg_cong)
  with assms show False by simp
qed

section \<open>Sorting\<close>

lemma sort_mset_cong: "mset xs = mset ys \<Longrightarrow> sort xs = sort (ys :: 'a :: linorder list)"
  by (metis sorted_list_of_multiset_mset)

lemma sort_map_mono:
  fixes f :: "'a :: linorder \<Rightarrow> 'b :: linorder"
  assumes "\<And>x y. x \<in> set xs \<Longrightarrow> y \<in> set xs \<Longrightarrow> x \<le> y \<Longrightarrow> f x \<le> f y"
  shows "sort (map f xs) = map f (sort xs)"
proof (rule properties_for_sort)
  show "mset (map f (sort xs)) = mset (map f xs)" by simp
  have "mono_on (set (sort xs)) f" using assms by (auto simp: mono_on_def)
  then show "sorted (map f (sort xs))" by (intro sorted_map_mono) simp_all
qed

lemma map_insort_key: "map f (insort_key f x xs) = insort (f x) (map f xs)"
  by (induction xs) simp_all

lemma map_sort_key: "map f (sort_key f xs) = sort (map f xs)"
  by (induction xs) (simp_all add: map_insort_key)

lemma sort_txt_files:
  assumes "\<forall>b\<in>set bs. length b = n"
  shows "sort (map txt_file bs) = map txt_file (sort bs)"
  by (rule sort_map_mono) (use assms in \<open>simp add: txt_file_le\<close>)

section \<open>The recorder\<close>

lemma step_stopped: "current st = None \<Longrightarrow> stop_event st \<Longrightarrow> step st e = st"
  by (cases e) auto

lemma foldl_step_stopped: "current st = None \<Longrightarrow> stop_event st \<Longrightarrow> foldl step st evs = st"
  by (induction evs) (simp_all add: step_stopped)

lemma recorder_loop_snoc:
  "recorder_loop t0 (evs @ [e]) = step (recorder_loop t0 evs) e"
  by (simp add: recorder_loop_def)

lemma recorder_loop_Nil:
  "recorder_loop t0 [] = \<lparr>started = [strftime t0], current = Some (strftime t0), tasks = [], stop_event = False\<rparr>"
  by (simp add: recorder_loop_def start_capture_def Let_def)

lemma stop_event_iff: "stop_event (recorder_loop t0 evs) \<longleftrightarrow> Sigint \<in> set evs"
proof (induction evs rule: rev_induct)
  case Nil show ?case by (simp add: recorder_loop_Nil)
next
  case (snoc e evs)
  show ?case
  proof (cases e)
    case Sigint then show ?thesis by (simp add: recorder_loop_snoc)
  next
    case (ProcExit io now)
    then show ?thesis using snoc
      by (simp add: recorder_loop_snoc start_capture_def Let_def split: option.splits)
  qed
qed

lemma current_iff: "current (recorder_loop t0 evs) = (if Sigint \<in> set evs then None else Some (last (started (recorder_loop t0 evs))))"
proof (induction evs rule: rev_induct)
  case Nil show ?case by (simp add: recorder_loop_Nil)
next
  case (snoc e evs)
  show ?case
  proof (cases e)
    case Sigint then show ?thesis by (simp add: recorder_loop_snoc)
  next
    case (ProcExit io now)
    then show ?thesis using snoc
      by (simp add: recorder_loop_snoc start_capture_def Let_def split: option.splits)
  qed
qed

lemma tasks_started:
  "map fst (tasks (recorder_loop t0 evs)) = map mp4_file (butlast (started (recorder_loop t0 evs)))
   \<and> started (recorder_loop t0 evs) \<noteq> []"
proof (induction evs rule: rev_induct)
  case Nil show ?case by (simp add: recorder_loop_Nil)
next
  case (snoc e evs)
  show ?case
  proof (cases e)
    case Sigint then show ?thesis using snoc by (simp add: recorder_loop_snoc)
  next
    case (ProcExit io now)
    show ?thesis
    proof (cases "Sigint \<in> set evs")
      case True
      then show ?thesis using snoc ProcExit
        by (simp add: recorder_loop_snoc current_iff)
    next
      case False
      from snoc obtain ids k where s: "started (recorder_loop t0 evs) = ids @ [k]"
        by (metis rev_exhaust)
      then show ?thesis using snoc ProcExit False
        by (simp add: recorder_loop_snoc current_iff start_capture_def Let_def mp4_file_def
            butlast_append)
    qed
  qed
qed

lemma started_valid:
  assumes "valid_datetime t0" and "\<forall>e\<in>set evs. clock_valid e"
  shows "\<forall>b\<in>set (started (recorder_loop t0 evs)). \<exists>t. valid_datetime t \<and> b = strftime t"
  using assms(2)
proof (induction evs rule: rev_induct)
  case Nil show ?case using assms(1) by (auto simp: recorder_loop_Nil)
next
  case (snoc e evs)
  then have IH: "\<forall>b\<in>set (started (recorder_loop t0 evs)). \<exists>t. valid_datetime t \<and> b = strftime t"
    by simp
  show ?case
  proof (cases e)
    case Sigint then show ?thesis using IH by (simp add: recorder_loop_snoc)
  next
    case (ProcExit io now)
    then have "valid_datetime now" using snoc.prems by simp
    then show ?thesis using IH ProcExit
      by (auto simp: recorder_loop_snoc start_capture_def Let_def split: option.splits)
  qed
qed

lemma tasks_ids:
  assumes "valid_datetime t0" and "\<forall>e\<in>set evs. clock_valid e"
  shows "\<forall>w\<in>set (tasks (recorder_loop t0 evs)).
     length (segment_id w) = 16 \<and> fst w = mp4_file (segment_id w) \<and> txt_path w = txt_file (segment_id w)"
proof
  fix w assume "w \<in> set (tasks (recorder_loop t0 evs))"
  then have "fst w \<in> set (map mp4_file (butlast (started (recorder_loop t0 evs))))"
    using tasks_started [of t0 evs] by (metis image_eqI set_map)
  then obtain b where b: "b \<in> set (started (recorder_loop t0 evs))" "fst w = mp4_file b"
    by (auto dest: in_set_butlastD)
  with started_valid [OF assms] obtain t where "valid_datetime t" "b = strftime t" by blast
  then have len: "length b = 16" by (simp add: length_strftime)
  then have ne: "b \<noteq> []" by auto
  show "length (segment_id w) = 16 \<and> fst w = mp4_file (segment_id w) \<and> txt_path w = txt_file (segment_id w)"
    using b(2) len by (simp add: segment_id_def txt_path_def stem_mp4_file [OF ne] with_suffix_mp4_file [OF ne])
qed

section \<open>The workers and the barrier\<close>

lemma transcribe_ok:
  "failure w = None \<Longrightarrow> transcribe_file w fs = (Inr (txt_path w), fs(txt_path w \<mapsto> transcript w))"
  by (cases w) (auto simp: failure_def transcript_def txt_path_def Let_def split: option.splits sum.splits)

lemma transcribe_fail:
  "failure w = Some e \<Longrightarrow> transcribe_file w fs = (Inl e, fs)"
  by (cases w) (auto simp: failure_def split: option.splits sum.splits)

lemma gather_loop_ok:
  assumes "\<forall>i\<in>set order. i < length ws \<and> failure (ws ! i) = None"
    and "distinct order" and "set order \<inter> set joined = {}"
  shows "gather_loop ws order res joined fs =
    (Inr (results_of ws order res), joined @ order, workers_fs ws order fs)"
  using assms
proof (induction order arbitrary: res joined fs)
  case Nil
  then show ?case by simp
next
  case (Cons i order)
  have i: "i < length ws" "failure (ws ! i) = None" "i \<notin> set joined" using Cons.prems by auto
  have a: "\<forall>i\<in>set order. i < length ws \<and> failure (ws ! i) = None" "distinct order"
    "set order \<inter> set (joined @ [i]) = {}" using Cons.prems by auto
  show ?case using i Cons.IH [OF a] by (simp add: transcribe_ok)
qed

lemma gather_loop_fail:
  assumes "\<forall>i\<in>set pre. i < length ws \<and> failure (ws ! i) = None"
    and "distinct (pre @ [k])" and "set (pre @ [k]) \<inter> set joined = {}"
    and "k < length ws" and "failure (ws ! k) = Some e"
  shows "gather_loop ws (pre @ k # post) res joined fs =
    (Inl e, joined @ pre @ [k], workers_fs ws pre fs)"
  using assms
proof (induction pre arbitrary: res joined fs)
  case Nil
  then show ?case by (simp add: transcribe_fail)
next
  case (Cons i pre)
  have i: "i < length ws" "failure (ws ! i) = None" "i \<notin> set joined" using Cons.prems by auto
  have a: "\<forall>i\<in>set pre. i < length ws \<and> failure (ws ! i) = None" "distinct (pre @ [k])"
    "set (pre @ [k]) \<inter> set (joined @ [i]) = {}"
    using Cons.prems by auto
  show ?case using i Cons.IH [OF a Cons.prems(4,5)] by (simp add: transcribe_ok)
qed

lemma length_results_of: "length (results_of ws xs r) = length r"
  by (induction xs arbitrary: r) simp_all

lemma nth_results_of:
  "j < length r \<Longrightarrow> results_of ws xs r ! j = (if j \<in> set xs then Some (txt_path (ws ! j)) else r ! j)"
proof (induction xs arbitrary: r)
  case Nil then show ?case by simp
next
  case (Cons x xs)
  then show ?case by (cases "j = x") (auto simp: nth_list_update)
qed

lemma results_of_all:
  assumes "set order = {..<length ws}"
  shows "results_of ws order (replicate (length ws) None) = map (\<lambda>w. Some (txt_path w)) ws"
  using assms by (intro nth_equalityI) (simp_all add: length_results_of nth_results_of)

lemma perm_upt:
  assumes "mset order = mset [0..<n]"
  shows "distinct order" and "set order = {..<n}"
proof -
  show "distinct order" using mset_eq_imp_distinct_iff [OF assms] by simp
  show "set order = {..<n}" using mset_eq_setD [OF assms] by (simp add: atLeast0LessThan)
qed

lemma gather_ok:
  assumes "\<forall>w\<in>set ws. failure w = None" and "mset order = mset [0..<length ws]"
  shows "gather ws order fs = Some (Inr (map txt_path ws), order, workers_fs ws order fs)"
proof -
  note p = perm_upt [OF assms(2)]
  have a: "\<forall>i\<in>set order. i < length ws \<and> failure (ws ! i) = None"
    using assms(1) p(2) by auto
  have "gather_loop ws order (replicate (length ws) None) [] fs =
     (Inr (map (\<lambda>w. Some (txt_path w)) ws), order, workers_fs ws order fs)"
    using gather_loop_ok [OF a p(1), of "[]"] by (simp add: results_of_all [OF p(2)])
  then show ?thesis
    by (simp add: gather_def comp_def image_iff)
qed

lemma gather_fail:
  assumes "\<exists>w\<in>set ws. failure w \<noteq> None" and "mset order = mset [0..<length ws]"
  shows "\<exists>pre k post e. order = pre @ k # post \<and> k < length ws \<and> failure (ws ! k) = Some e
     \<and> (\<forall>i\<in>set pre. failure (ws ! i) = None)
     \<and> gather ws order fs = Some (Inl e, pre @ [k], workers_fs ws pre fs)"
proof -
  note p = perm_upt [OF assms(2)]
  from assms(1) obtain j where "j < length ws" "failure (ws ! j) \<noteq> None"
    by (auto simp: in_set_conv_nth)
  then have "\<exists>i\<in>set order. failure (ws ! i) \<noteq> None" using p(2) by auto
  from split_list_first_prop [OF this]
  obtain pre k post where order: "order = pre @ k # post"
    and k: "failure (ws ! k) \<noteq> None" and pre0: "\<forall>i\<in>set pre. \<not> failure (ws ! i) \<noteq> None"
    by blast
  from k obtain e where e: "failure (ws ! k) = Some e" by auto
  have sub: "set pre \<subseteq> {..<length ws}" "k < length ws"
    using p(2) unfolding order by auto
  have pre: "\<forall>i\<in>set pre. i < length ws \<and> failure (ws ! i) = None"
    using pre0 sub(1) by auto
  have d: "distinct (pre @ [k])" using p(1) unfolding order by simp
  have "gather_loop ws (pre @ k # post) (replicate (length ws) None) [] fs =
      (Inl e, [] @ pre @ [k], workers_fs ws pre fs)"
    by (rule gather_loop_fail [OF pre d _ sub(2) e]) simp
  then have "gather ws order fs = Some (Inl e, pre @ [k], workers_fs ws pre fs)"
    unfolding order by (simp add: gather_def)
  with order sub(2) e pre show ?thesis by blast
qed

lemma gather_loop_joined:
  assumes "gather_loop ws order res joined fs = (r, joined', fs')"
    and "distinct joined" and "set joined \<subseteq> {..<length ws}"
    and "\<forall>i<length res. res ! i \<noteq> None \<longrightarrow> i \<in> set joined"
  shows "distinct joined' \<and> set joined' \<subseteq> {..<length ws}
    \<and> (\<forall>res'. r = Inr res' \<longrightarrow>
         length res' = length res \<and> (\<forall>i<length res'. res' ! i \<noteq> None \<longrightarrow> i \<in> set joined'))"
  using assms
proof (induction order arbitrary: res joined fs)
  case Nil
  then show ?case by auto
next
  case (Cons i order)
  show ?case
  proof (cases "i < length ws \<and> i \<notin> set joined")
    case False
    then have "gather_loop ws order res joined fs = (r, joined', fs')"
      using Cons.prems(1) by auto
    from Cons.IH [OF this Cons.prems(2,3,4)] show ?thesis .
  next
    case True
    obtain x fs1 where t: "transcribe_file (ws ! i) fs = (x, fs1)" by (cases "transcribe_file (ws ! i) fs")
    show ?thesis
    proof (cases x)
      case (Inl e)
      then have "r = Inl e" "joined' = joined @ [i]"
        using Cons.prems(1) True t by auto
      then show ?thesis using True Cons.prems(2,3) by auto
    next
      case (Inr p)
      then have g: "gather_loop ws order (res[i := Some p]) (joined @ [i]) fs1 = (r, joined', fs')"
        using Cons.prems(1) True t by auto
      have a: "distinct (joined @ [i])" "set (joined @ [i]) \<subseteq> {..<length ws}"
        using True Cons.prems(2,3) by auto
      have b: "\<forall>j<length (res[i := Some p]). res[i := Some p] ! j \<noteq> None \<longrightarrow> j \<in> set (joined @ [i])"
      proof (intro allI impI)
        fix j assume j: "j < length (res[i := Some p])" "res[i := Some p] ! j \<noteq> None"
        show "j \<in> set (joined @ [i])"
        proof (cases "j = i")
          case True then show ?thesis by simp
        next
          case False
          then have "res ! j \<noteq> None" using j by (simp add: nth_list_update)
          then show ?thesis using Cons.prems(4) j(1) by simp
        qed
      qed
      from Cons.IH [OF g a b] show ?thesis by simp
    qed
  qed
qed

lemma gather_joined:
  assumes "gather ws order fs = Some (Inr txt_files, joined, fs')"
  shows "distinct joined \<and> set joined = {..<length ws} \<and> length txt_files = length ws"
proof -
  obtain r j f where g: "gather_loop ws order (replicate (length ws) None) [] fs = (r, j, f)"
    by (cases "gather_loop ws order (replicate (length ws) None) [] fs") auto
  with assms obtain res where r: "r = Inr res" "None \<notin> set res" "txt_files = map the res" "joined = j"
    by (auto simp: gather_def split: sum.splits if_splits)
  have inv: "distinct j \<and> set j \<subseteq> {..<length ws}
    \<and> (\<forall>res'. r = Inr res' \<longrightarrow> length res' = length (replicate (length ws) (None :: path option))
        \<and> (\<forall>i<length res'. res' ! i \<noteq> None \<longrightarrow> i \<in> set j))"
    by (rule gather_loop_joined [OF g]) simp_all
  then have len: "length res = length ws" and all: "\<forall>i<length res. res ! i \<noteq> None \<longrightarrow> i \<in> set j"
    using r(1) by simp_all
  have "\<forall>i<length res. res ! i \<noteq> None" using r(2) by (metis nth_mem)
  then have "{..<length ws} \<subseteq> set j" using all len by auto
  with inv r len show ?thesis by auto
qed

lemma gather_Nil: "gather [] order fs = Some (Inr [], [], fs)"
proof -
  have "gather_loop [] order res joined fs = (Inr res, joined, fs)" for res joined
    by (induction order) simp_all
  then show ?thesis by (simp add: gather_def)
qed

lemma workers_fs_present:
  "fs p \<noteq> None \<Longrightarrow> workers_fs ws order fs p \<noteq> None"
  by (induction order arbitrary: fs) simp_all

lemma workers_fs_written:
  "i \<in> set order \<Longrightarrow> workers_fs ws order fs (txt_path (ws ! i)) \<noteq> None"
proof (induction order arbitrary: fs)
  case Nil then show ?case by simp
next
  case (Cons j order)
  show ?case
  proof (cases "i = j")
    case True then show ?thesis by (simp add: workers_fs_present)
  next
    case False then show ?thesis using Cons by simp
  qed
qed

lemma workers_fs_other:
  "\<forall>j\<in>set order. txt_path (ws ! j) \<noteq> p \<Longrightarrow> workers_fs ws order fs p = fs p"
  by (induction order arbitrary: fs) auto

lemma workers_fs_own:
  assumes "i \<in> set order"
    and "\<forall>j\<in>set order. txt_path (ws ! j) = txt_path (ws ! i) \<longrightarrow> j = i"
    and "distinct order"
  shows "workers_fs ws order fs (txt_path (ws ! i)) = Some (transcript (ws ! i))"
  using assms
proof (induction order arbitrary: fs)
  case Nil then show ?case by simp
next
  case (Cons j order)
  show ?case
  proof (cases "i = j")
    case True
    then have "\<forall>k\<in>set order. txt_path (ws ! k) \<noteq> txt_path (ws ! i)"
      using Cons.prems by auto
    then show ?thesis using True by (simp add: workers_fs_other)
  next
    case False then show ?thesis using Cons by simp
  qed
qed

section \<open>Concatenation\<close>

lemma write_entries_ok:
  assumes "fout \<notin> set ts" and "\<forall>t\<in>set ts. fs t \<noteq> None" and "fs fout = Some c"
  shows "write_entries ts fout fs =
    (None, fs(fout \<mapsto> c @ document (map (\<lambda>t. (stem t, contents fs t)) ts)))"
  using assms
proof (induction ts arbitrary: fs c)
  case Nil
  then show ?case by (simp add: document_def fun_upd_idem)
next
  case (Cons t ts)
  from Cons.prems obtain body where t: "fs t = Some body" "t \<noteq> fout" by auto
  let ?c' = "c @ entry (stem t) body"
  let ?fs3 = "fs(fout \<mapsto> ?c')"
  have step: "write_entries (t # ts) fout fs = write_entries ts fout ?fs3"
    using t Cons.prems(3) by (simp add: fwrite_def entry_def Let_def)
  have a: "fout \<notin> set ts" "\<forall>t\<in>set ts. ?fs3 t \<noteq> None" "?fs3 fout = Some ?c'"
    using Cons.prems by auto
  have same: "map (\<lambda>t. (stem t, contents ?fs3 t)) ts = map (\<lambda>t. (stem t, contents fs t)) ts"
    using a(1) by (intro map_cong) (auto simp: contents_def)
  have doc: "c @ document (map (\<lambda>t. (stem t, contents fs t)) (t # ts)) =
      ?c' @ document (map (\<lambda>t. (stem t, contents fs t)) ts)"
    using t(1) by (simp add: document_def contents_def)
  have "write_entries (t # ts) fout fs = write_entries ts fout ?fs3" by (rule step)
  also have "\<dots> = (None, ?fs3(fout \<mapsto> ?c' @ document (map (\<lambda>t. (stem t, contents ?fs3 t)) ts)))"
    by (rule Cons.IH [OF a])
  also have "\<dots> = (None, fs(fout \<mapsto> c @ document (map (\<lambda>t. (stem t, contents fs t)) (t # ts))))"
    by (simp only: same doc fun_upd_upd)
  finally show ?case .
qed

lemma concatenate_ok:
  assumes "ts \<noteq> []" and "dialog (stem (hd ts)) (stem (last ts)) \<notin> set ts"
    and "\<forall>t\<in>set ts. fs t \<noteq> None"
  shows "concatenate ts fs =
    (Ready (dialog (stem (hd ts)) (stem (last ts))),
     fs(dialog (stem (hd ts)) (stem (last ts)) \<mapsto> document (map (\<lambda>t. (stem t, contents fs t)) ts)))"
proof -
  let ?f = "dialog (stem (hd ts)) (stem (last ts))"
  let ?fs0 = "fs(?f \<mapsto> [])"
  have a: "\<forall>t\<in>set ts. ?fs0 t \<noteq> None" "?fs0 ?f = Some []" using assms by auto
  have same: "map (\<lambda>t. (stem t, contents ?fs0 t)) ts = map (\<lambda>t. (stem t, contents fs t)) ts"
    using assms(2) by (intro map_cong) (auto simp: contents_def)
  have "write_entries ts ?f ?fs0 =
      (None, ?fs0(?f \<mapsto> [] @ document (map (\<lambda>t. (stem t, contents ?fs0 t)) ts)))"
    by (rule write_entries_ok [OF assms(2) a])
  also have "\<dots> = (None, fs(?f \<mapsto> document (map (\<lambda>t. (stem t, contents fs t)) ts)))"
    by (simp only: same fun_upd_upd append_Nil)
  finally show ?thesis
    using assms(1) by (simp add: concatenate_def Let_def dialog_def)
qed

lemma concatenate_NoTranscripts: "concatenate ts fs = (NoTranscripts, fs') \<Longrightarrow> ts = []"
  by (auto simp: concatenate_def Let_def split: if_splits prod.splits option.splits)

lemma main_gather:
  "Sigint \<in> set evs \<Longrightarrow> main t0 evs order fs =
     (case gather (tasks (recorder_loop t0 evs)) order fs of
        None \<Rightarrow> None
      | Some (Inl e, joined, fs') \<Rightarrow> Some (Unhandled e, fs')
      | Some (Inr txt_files, joined, fs') \<Rightarrow> Some (assemble txt_files fs'))"
  by (simp add: main_def stop_event_iff)

lemma assemble_ids:
  assumes ne: "ids \<noteq> []"
    and len: "\<forall>b\<in>set ids. length b = 16"
    and pres: "\<forall>b\<in>set ids. fs (txt_file b) \<noteq> None"
  shows "assemble (map txt_file ids) fs =
    (Ready (dialog (hd (sort ids)) (last (sort ids))),
     fs(dialog (hd (sort ids)) (last (sort ids)) \<mapsto>
        document (map (\<lambda>b. (b, contents fs (txt_file b))) (sort ids))))"
proof -
  let ?s = "sort ids"
  let ?ts = "map txt_file ?s"
  have sne: "?s \<noteq> []" using ne by (metis length_0_conv length_sort)
  then have hl: "hd ?s \<in> set ids" "last ?s \<in> set ids"
    using hd_in_set [OF sne] last_in_set [OF sne] by simp_all
  then have nonempty: "hd ?s \<noteq> []" "last ?s \<noteq> []" using len by auto
  have tne: "?ts \<noteq> []" using sne by simp
  have st: "stem (hd ?ts) = hd ?s" "stem (last ?ts) = last ?s"
    using sne nonempty by (simp_all add: hd_map last_map stem_txt_file)
  have notin: "dialog (stem (hd ?ts)) (stem (last ?ts)) \<notin> set ?ts"
    unfolding st using len hl(1) by (auto simp: dialog_neq_txt_file)
  have rd: "\<forall>t\<in>set ?ts. fs t \<noteq> None" using pres by simp
  have ent: "map (\<lambda>t. (stem t, contents fs t)) ?ts = map (\<lambda>b. (b, contents fs (txt_file b))) ?s"
  proof -
    have "\<And>b. b \<in> set ?s \<Longrightarrow> stem (txt_file b) = b"
      using len by (intro stem_txt_file) auto
    then show ?thesis by (simp add: comp_def)
  qed
  have "assemble (map txt_file ids) fs = concatenate ?ts fs"
    using sort_txt_files [OF len] by (simp add: assemble_def)
  also have "\<dots> = (Ready (dialog (stem (hd ?ts)) (stem (last ?ts))),
      fs(dialog (stem (hd ?ts)) (stem (last ?ts)) \<mapsto> document (map (\<lambda>t. (stem t, contents fs t)) ?ts)))"
    by (rule concatenate_ok [OF tne notin rd])
  finally show ?thesis by (simp only: st ent)
qed

lemma main_all_ok:
  assumes stop: "Sigint \<in> set evs"
    and ws: "ws = tasks (recorder_loop t0 evs)" and ne: "ws \<noteq> []"
    and ids: "\<forall>w\<in>set ws. length (segment_id w) = 16 \<and> txt_path w = txt_file (segment_id w)"
    and ok: "\<forall>w\<in>set ws. failure w = None"
    and perm: "mset order = mset [0..<length ws]"
  shows "main t0 evs order fs =
    Some (Ready (dialog (hd (sort (map segment_id ws))) (last (sort (map segment_id ws)))),
      (workers_fs ws order fs)
        (dialog (hd (sort (map segment_id ws))) (last (sort (map segment_id ws))) \<mapsto>
         document (map (\<lambda>b. (b, contents (workers_fs ws order fs) (txt_file b)))
           (sort (map segment_id ws)))))"
proof -
  let ?ids = "map segment_id ws"
  let ?fsw = "workers_fs ws order fs"
  let ?final = "dialog (hd (sort ?ids)) (last (sort ?ids))"
  let ?entries = "map (\<lambda>b. (b, contents ?fsw (txt_file b))) (sort ?ids)"
  note p = perm_upt [OF perm]
  have txts: "map txt_path ws = map txt_file ?ids" using ids by simp
  have len: "\<forall>b\<in>set ?ids. length b = 16" using ids by simp
  have written: "\<forall>b\<in>set ?ids. ?fsw (txt_file b) \<noteq> None"
  proof
    fix b assume "b \<in> set ?ids"
    then obtain i where i: "i < length ws" "b = segment_id (ws ! i)"
      by (auto simp: in_set_conv_nth)
    then have "txt_file b = txt_path (ws ! i)" using ids by simp
    moreover have "i \<in> set order" using i(1) p(2) by simp
    ultimately show "?fsw (txt_file b) \<noteq> None" by (simp add: workers_fs_written)
  qed
  have "main t0 evs order fs = Some (assemble (map txt_file ?ids) ?fsw)"
    using gather_ok [OF ok perm, of fs] by (simp add: main_gather [OF stop] ws [symmetric] txts)
  also have "assemble (map txt_file ?ids) ?fsw = (Ready ?final, ?fsw(?final \<mapsto> document ?entries))"
    using ne by (intro assemble_ids len written) simp
  finally show ?thesis .
qed

lemma entries_own:
  assumes ids: "\<forall>w\<in>set ws. length (segment_id w) = 16 \<and> txt_path w = txt_file (segment_id w)"
    and perm: "mset order = mset [0..<length ws]"
    and dist: "distinct (map segment_id ws)"
  shows "map (\<lambda>b. (b, contents (workers_fs ws order fs) (txt_file b))) (sort (map segment_id ws))
    = map (\<lambda>w. (segment_id w, transcript w)) (sort_key segment_id ws)"
proof -
  let ?ids = "map segment_id ws"
  let ?fsw = "workers_fs ws order fs"
  note p = perm_upt [OF perm]
  have own: "contents ?fsw (txt_file (segment_id w)) = transcript w" if "w \<in> set ws" for w
  proof -
    from that obtain i where i: "i < length ws" "w = ws ! i" by (auto simp: in_set_conv_nth)
    have io: "i \<in> set order" using i(1) p(2) by simp
    have uniq: "\<forall>j\<in>set order. txt_path (ws ! j) = txt_path (ws ! i) \<longrightarrow> j = i"
    proof (intro ballI impI)
      fix j assume j: "j \<in> set order" "txt_path (ws ! j) = txt_path (ws ! i)"
      then have jl: "j < length ws" using p(2) by simp
      then have "segment_id (ws ! j) = segment_id (ws ! i)"
        using j(2) ids i(1) by (simp add: txt_file_inj)
      then have "?ids ! j = ?ids ! i" using jl i(1) by simp
      moreover have "j < length ?ids" "i < length ?ids" using jl i(1) by simp_all
      ultimately show "j = i" using dist nth_eq_iff_index_eq by blast
    qed
    have "?fsw (txt_path (ws ! i)) = Some (transcript (ws ! i))"
      by (rule workers_fs_own [OF io uniq p(1)])
    then show ?thesis using ids i by (simp add: contents_def)
  qed
  have "map (\<lambda>b. (b, contents ?fsw (txt_file b))) (sort ?ids)
      = map (\<lambda>w. (segment_id w, contents ?fsw (txt_file (segment_id w)))) (sort_key segment_id ws)"
    by (simp add: map_sort_key [symmetric] comp_def)
  also have "\<dots> = map (\<lambda>w. (segment_id w, transcript w)) (sort_key segment_id ws)"
    by (rule map_cong) (simp_all add: own)
  finally show ?thesis .
qed

lemma universal_newlines_id: "CR \<notin> set s \<Longrightarrow> universal_newlines s = s"
  by (induction s rule: universal_newlines.induct) auto

lemma universal_newlines_example:
  "universal_newlines (''a'' @ [CR, NL] @ ''b'' @ [CR] @ ''c'') = ''a'' @ [NL] @ ''b'' @ [NL] @ ''c''"
  by (simp add: CR_def NL_def)


section \<open>The sample run\<close>

lemma ex_clock_valid: "m < 60 \<Longrightarrow> valid_datetime (ex_clock m)"
  by (simp add: ex_clock_def valid_datetime_def days_in_month_def)

lemmas ex_strftime = strftime_def zfill_def dec.simps digit_def ex_clock_def

lemma ex_tasks: "tasks (recorder_loop (ex_clock 0) ex_run) =
  [(mp4_file ''20240101T100000Z'', ex_ok ''one''), (mp4_file ''20240101T100500Z'', ex_ok ''two''),
   (mp4_file ''20240101T101000Z'', ex_ok ''three'')]"
  by (simp add: recorder_loop_def ex_run_def start_capture_def Let_def mp4_file_def ex_strftime)

lemmas ex_eval = recorder_loop_def start_capture_def Let_def mp4_file_def txt_file_def dialog_def
  strftime_def zfill_def dec.simps digit_def ex_clock_def main_def gather_def assemble_def
  concatenate_def fwrite_def with_suffix_def suffix_def stem_def name_def rfind_def joinpath_def
  TEMP_DIR_def document_def entry_def ex_ok_def ex_no_capture_def ex_no_transcript_def
  CR_def

section \<open>The claims\<close>

subsection \<open>C1: one entry per segment, in ascending order\<close>

text \<open>
  C1, as amended. In a run that ends with SIGINT and in which every spawned worker
  succeeds (N of them, N at least one: each finds its capture and gets a transcript),
  \<open>main\<close> writes a document whatever the order in which the workers finish; its entries
  carry the N segment identifiers in ascending (lexical) order, and when the identifiers
  are distinct the entries are exactly the segments with their own transcripts, as read
  back from their files, sorted by identifier.
\<close>

theorem assembled_in_order:
  assumes t0: "valid_datetime t0" and evs: "\<forall>e\<in>set evs. clock_valid e"
    and stop: "Sigint \<in> set evs"
    and ws: "ws = tasks (recorder_loop t0 evs)" and ne: "ws \<noteq> []"
    and ok: "\<forall>w\<in>set ws. failure w = None"
    and perm: "mset order = mset [0..<length ws]"
  shows "\<exists>final fs' entries.
     main t0 evs order fs = Some (Ready final, fs')
     \<and> fs' final = Some (document entries)
     \<and> map fst entries = sort (map segment_id ws)
     \<and> (distinct (map segment_id ws) \<longrightarrow>
          entries = map (\<lambda>w. (segment_id w, transcript w)) (sort_key segment_id ws))"
proof -
  let ?ids = "map segment_id ws"
  let ?fsw = "workers_fs ws order fs"
  let ?final = "dialog (hd (sort ?ids)) (last (sort ?ids))"
  let ?entries = "map (\<lambda>b. (b, contents ?fsw (txt_file b))) (sort ?ids)"
  have ids: "\<forall>w\<in>set ws. length (segment_id w) = 16 \<and> txt_path w = txt_file (segment_id w)"
    using tasks_ids [OF t0 evs] ws by simp
  have m: "main t0 evs order fs = Some (Ready ?final, ?fsw(?final \<mapsto> document ?entries))"
    by (rule main_all_ok [OF stop ws ne ids ok perm])
  have d: "distinct ?ids \<longrightarrow>
      ?entries = map (\<lambda>w. (segment_id w, transcript w)) (sort_key segment_id ws)"
    using entries_own [OF ids perm] by blast
  have "map fst ?entries = sort ?ids" by (simp add: comp_def)
  with m d show ?thesis
    by (intro exI [of _ ?final] exI [of _ "?fsw(?final \<mapsto> document ?entries)"]
        exI [of _ ?entries]) simp
qed

theorem assembled_in_order_witness:
  "\<exists>final fs' entries.
     main (ex_clock 0) ex_run [1, 0, 2] Map.empty = Some (Ready final, fs')
     \<and> fs' final = Some (document entries)
     \<and> entries = [(''20240101T100000Z'', ''one''), (''20240101T100500Z'', ''two''),
          (''20240101T101000Z'', ''three'')]"
proof -
  let ?ws = "tasks (recorder_loop (ex_clock 0) ex_run)"
  have a: "valid_datetime (ex_clock 0)" by (simp add: ex_clock_valid)
  have b: "\<forall>e\<in>set ex_run. clock_valid e" by (simp add: ex_run_def ex_clock_valid)
  have c: "Sigint \<in> set ex_run" by (simp add: ex_run_def)
  have d: "?ws \<noteq> []" by (simp add: ex_tasks)
  have e: "\<forall>w\<in>set ?ws. failure w = None" by (simp add: ex_tasks failure_def ex_ok_def)
  have f: "mset [1, 0, 2] = mset [0..<length ?ws]" by (simp add: ex_tasks upt_rec)
  have ids: "map segment_id ?ws = [''20240101T100000Z'', ''20240101T100500Z'', ''20240101T101000Z'']"
    by (simp add: ex_tasks segment_id_def stem_mp4_file)
  have g: "distinct (map segment_id ?ws)" unfolding ids by simp
  have h: "map (\<lambda>w. (segment_id w, transcript w)) (sort_key segment_id ?ws) =
     [(''20240101T100000Z'', ''one''), (''20240101T100500Z'', ''two''),
          (''20240101T101000Z'', ''three'')]"
    by (simp add: ex_tasks segment_id_def stem_mp4_file transcript_def ex_ok_def CR_def)
  from assembled_in_order [OF a b c refl d e f, of Map.empty] g h show ?thesis by auto
qed

text \<open>
  C1 as stated fails: of three segments two are captured and transcribed and one
  transcription fails; whatever the two successful workers wrote, \<open>main\<close> ends with the
  error and there is no document with their two entries.
\<close>

theorem successful_segments_counterexample:
  "main (ex_clock 0)
     [ProcExit (ex_ok ''one'') (ex_clock 5), ProcExit ex_no_transcript (ex_clock 10),
      ProcExit (ex_ok ''three'') (ex_clock 15), Sigint]
     [0, 2, 1] Map.empty
   = Some (Unhandled (APIError ''503''),
       [txt_file ''20240101T100000Z'' \<mapsto> ''one'', txt_file ''20240101T101000Z'' \<mapsto> ''three''])"
  by (simp add: ex_eval)

subsection \<open>C2: a failed capture\<close>

text \<open>
  C2, as amended. While the recorder runs, every exit of the capture process, whatever
  its exit status and whatever it left at the output path, appends a transcription
  worker for that segment's output file and starts the next capture.
\<close>

theorem worker_spawned_after_every_capture:
  assumes "Sigint \<notin> set evs"
  shows "\<exists>ids k. started (recorder_loop t0 evs) = ids @ [k]
     \<and> tasks (recorder_loop t0 (evs @ [ProcExit io now]))
         = tasks (recorder_loop t0 evs) @ [(joinpath TEMP_DIR (k @ ''.mp4''), io)]
     \<and> started (recorder_loop t0 (evs @ [ProcExit io now])) = ids @ [k, strftime now]
     \<and> current (recorder_loop t0 (evs @ [ProcExit io now])) = Some (strftime now)"
proof -
  obtain ids k where s: "started (recorder_loop t0 evs) = ids @ [k]"
    using tasks_started [of t0 evs] by (metis rev_exhaust)
  then have "current (recorder_loop t0 evs) = Some k" using assms by (simp add: current_iff)
  with s show ?thesis
    by (simp add: recorder_loop_snoc start_capture_def Let_def)
qed

theorem worker_spawned_after_every_capture_witness:
  "Sigint \<notin> set [ProcExit (ex_ok ''one'') (ex_clock 5)]
   \<and> tasks (recorder_loop (ex_clock 0)
        ([ProcExit (ex_ok ''one'') (ex_clock 5)] @ [ProcExit ex_no_capture (ex_clock 10)]))
     = tasks (recorder_loop (ex_clock 0) [ProcExit (ex_ok ''one'') (ex_clock 5)])
        @ [(joinpath TEMP_DIR (''20240101T100500Z'' @ ''.mp4''), ex_no_capture)]"
proof -
  have a: "Sigint \<notin> set [ProcExit (ex_ok ''one'') (ex_clock 5)]" by simp
  have "started (recorder_loop (ex_clock 0) [ProcExit (ex_ok ''one'') (ex_clock 5)])
      = [''20240101T100000Z''] @ [''20240101T100500Z'']"
    by (simp add: recorder_loop_def start_capture_def Let_def ex_strftime)
  with worker_spawned_after_every_capture [OF a, of "ex_clock 0" ex_no_capture "ex_clock 10"] a
  show ?thesis by auto
qed

text \<open>
  C2 as stated fails: a capture that exits with status 1 and leaves no file still gets
  a transcription worker.
\<close>

theorem capture_failure_counterexample:
  "tasks (recorder_loop (ex_clock 0) [ProcExit ex_no_capture (ex_clock 5)])
     = [(mp4_file ''20240101T100000Z'', ex_no_capture)]
   \<and> returncode ex_no_capture \<noteq> 0 \<and> artifact ex_no_capture = None"
  by (simp add: ex_eval)

subsection \<open>C3: a failed transcription\<close>

text \<open>
  C3, as amended. When at least one spawned worker fails, \<open>gather\<close> raises the failure
  of the first worker seen to fail and \<open>main\<close> ends with that error: nothing is
  concatenated, and the file system holds only the transcripts of the workers that
  finished before it.
\<close>

theorem transcription_failure_aborts:
  assumes "Sigint \<in> set evs" and "ws = tasks (recorder_loop t0 evs)"
    and "\<exists>w\<in>set ws. failure w \<noteq> None" and "mset order = mset [0..<length ws]"
  shows "\<exists>pre k post e. order = pre @ k # post
     \<and> (\<forall>i\<in>set pre. failure (ws ! i) = None) \<and> failure (ws ! k) = Some e
     \<and> main t0 evs order fs = Some (Unhandled e, workers_fs ws pre fs)"
proof -
  from gather_fail [OF assms(3,4), of fs] obtain pre k post e
    where "order = pre @ k # post" "failure (ws ! k) = Some e"
      "\<forall>i\<in>set pre. failure (ws ! i) = None"
      "gather ws order fs = Some (Inl e, pre @ [k], workers_fs ws pre fs)"
    by blast
  then show ?thesis
    using assms(2) by (simp add: main_gather [OF assms(1)]) blast
qed

theorem transcription_failure_aborts_witness:
  "\<exists>pre k post e. [1, 0] = pre @ k # post
     \<and> main (ex_clock 0)
         [ProcExit ex_no_transcript (ex_clock 5), ProcExit (ex_ok ''two'') (ex_clock 10), Sigint]
         [1, 0] Map.empty
       = Some (Unhandled e, workers_fs
           (tasks (recorder_loop (ex_clock 0)
             [ProcExit ex_no_transcript (ex_clock 5), ProcExit (ex_ok ''two'') (ex_clock 10), Sigint]))
           pre Map.empty)"
proof -
  let ?evs = "[ProcExit ex_no_transcript (ex_clock 5), ProcExit (ex_ok ''two'') (ex_clock 10), Sigint]"
  let ?ws = "tasks (recorder_loop (ex_clock 0) ?evs)"
  have ws: "?ws = [(mp4_file ''20240101T100000Z'', ex_no_transcript),
      (mp4_file ''20240101T100500Z'', ex_ok ''two'')]"
    by (simp add: recorder_loop_def start_capture_def Let_def mp4_file_def ex_strftime)
  have a: "Sigint \<in> set ?evs" by simp
  have b: "\<exists>w\<in>set ?ws. failure w \<noteq> None"
    unfolding ws by (simp add: failure_def ex_no_transcript_def)
  have c: "mset [1, 0] = mset [0..<length ?ws]" unfolding ws by (simp add: upt_rec)
  from transcription_failure_aborts [OF a refl b c, of Map.empty] show ?thesis by blast
qed

text \<open>
  C3 as stated fails: with one failed and one successful transcription, \<open>main\<close> ends with
  the error and no document holds the successful segment.
\<close>

theorem transcription_failure_counterexample:
  "main (ex_clock 0)
     [ProcExit ex_no_transcript (ex_clock 5), ProcExit (ex_ok ''two'') (ex_clock 10), Sigint]
     [1, 0] Map.empty
   = Some (Unhandled (APIError ''503''), [txt_file ''20240101T100500Z'' \<mapsto> ''two''])"
  by (simp add: ex_eval)

subsection \<open>C4: cancellation during a capture\<close>




subsection \<open>C5: no capture after the shutdown request\<close>

text \<open>
  C5. After SIGINT has been handled no capture is started and no worker is created,
  whatever events follow: the segments started and the tasks are those of the moment
  of the signal, and the recorder has ended.
\<close>

theorem no_capture_after_shutdown:
  "started (recorder_loop t0 (evs @ Sigint # evs')) = started (recorder_loop t0 evs)
   \<and> tasks (recorder_loop t0 (evs @ Sigint # evs')) = tasks (recorder_loop t0 evs)
   \<and> current (recorder_loop t0 (evs @ Sigint # evs')) = None
   \<and> stop_event (recorder_loop t0 (evs @ Sigint # evs'))"
proof -
  let ?st = "step (recorder_loop t0 evs) Sigint"
  have "recorder_loop t0 (evs @ Sigint # evs') = foldl step ?st evs'"
    by (simp add: recorder_loop_def)
  also have "\<dots> = ?st" by (rule foldl_step_stopped) simp_all
  finally show ?thesis by simp
qed

subsection \<open>C6: the drain barrier\<close>




subsection \<open>C7: assembly is deterministic and idempotent\<close>

text \<open>
  C7. For transcripts named by valid timestamps and present in the file system, the
  tail of \<open>main\<close> from \<open>txt_files.sort()\<close> on gives the same outcome and the same files for
  any two orders of the same results, and running it again on the files it produced
  changes nothing.
\<close>

theorem assemble_deterministic:
  assumes "mset xs = mset ys"
    and "\<forall>p\<in>set xs. \<exists>t. valid_datetime t \<and> p = txt_file (strftime t)"
    and "\<forall>p\<in>set xs. fs p \<noteq> None"
  shows "assemble xs fs = assemble ys fs
    \<and> assemble ys (snd (assemble xs fs)) = assemble xs fs"
proof -
  have eq: "assemble xs f = assemble ys f" for f
    using sort_mset_cong [OF assms(1)] by (simp add: assemble_def)
  have "assemble xs (snd (assemble xs fs)) = assemble xs fs"
  proof (cases "xs = []")
    case True
    then show ?thesis by (simp add: assemble_def concatenate_def)
  next
    case False
    have "\<exists>b. p = txt_file b" if "p \<in> set xs" for p using assms(2) that by blast
    then obtain ids where xs: "xs = map txt_file ids"
      by (metis ex_map_conv)
    have ne: "ids \<noteq> []" using False xs by simp
    have len: "\<forall>b\<in>set ids. length b = 16"
    proof
      fix b assume "b \<in> set ids"
      then have "txt_file b \<in> set xs" using xs by simp
      with assms(2) obtain t where "valid_datetime t" "txt_file b = txt_file (strftime t)" by blast
      then show "length b = 16" by (simp add: txt_file_inj length_strftime)
    qed
    have pres: "\<forall>b\<in>set ids. fs (txt_file b) \<noteq> None" using assms(3) xs by simp
    let ?final = "dialog (hd (sort ids)) (last (sort ids))"
    let ?doc = "\<lambda>f. document (map (\<lambda>b. (b, contents f (txt_file b))) (sort ids))"
    let ?fs' = "fs(?final \<mapsto> ?doc fs)"
    have first: "assemble xs fs = (Ready ?final, ?fs')"
      unfolding xs by (rule assemble_ids [OF ne len pres])
    have other: "?fs' (txt_file b) = fs (txt_file b)" if "b \<in> set ids" for b
    proof -
      have "sort ids \<noteq> []" using ne by (metis length_0_conv length_sort)
      from hd_in_set [OF this] have "hd (sort ids) \<in> set ids" by simp
      then have "length (hd (sort ids)) = length b" using len that by simp
      from dialog_neq_txt_file [OF this]
      have "txt_file b \<noteq> dialog (hd (sort ids)) (last (sort ids))" by (rule not_sym)
      then show ?thesis by simp
    qed
    have pres': "\<forall>b\<in>set ids. ?fs' (txt_file b) \<noteq> None" using pres other by simp
    have "?doc ?fs' = ?doc fs"
    proof -
      have "map (\<lambda>b. (b, contents ?fs' (txt_file b))) (sort ids)
          = map (\<lambda>b. (b, contents fs (txt_file b))) (sort ids)"
      proof (rule map_cong)
        fix b assume "b \<in> set (sort ids)"
        then have "b \<in> set ids" by simp
        from other [OF this] show "(b, contents ?fs' (txt_file b)) = (b, contents fs (txt_file b))"
          by (simp only: contents_def)
      qed simp
      then show ?thesis by (rule arg_cong)
    qed
    moreover have "assemble xs ?fs' = (Ready ?final, ?fs'(?final \<mapsto> ?doc ?fs'))"
      unfolding xs by (rule assemble_ids [OF ne len pres'])
    ultimately show ?thesis using first by simp
  qed
  with eq show ?thesis by simp
qed

theorem assemble_deterministic_witness:
  "mset [txt_file ''20240101T100500Z'', txt_file ''20240101T100000Z'']
     = mset [txt_file ''20240101T100000Z'', txt_file ''20240101T100500Z'']
   \<and> assemble [txt_file ''20240101T100500Z'', txt_file ''20240101T100000Z'']
        [txt_file ''20240101T100000Z'' \<mapsto> ''one'', txt_file ''20240101T100500Z'' \<mapsto> ''two'']
     = assemble [txt_file ''20240101T100000Z'', txt_file ''20240101T100500Z'']
        [txt_file ''20240101T100000Z'' \<mapsto> ''one'', txt_file ''20240101T100500Z'' \<mapsto> ''two'']"
proof -
  let ?xs = "[txt_file ''20240101T100500Z'', txt_file ''20240101T100000Z'']"
  let ?ys = "[txt_file ''20240101T100000Z'', txt_file ''20240101T100500Z'']"
  let ?fs = "[txt_file ''20240101T100000Z'' \<mapsto> ''one'', txt_file ''20240101T100500Z'' \<mapsto> ''two'']"
  have a: "mset ?xs = mset ?ys" by simp
  have s: "strftime (ex_clock 0) = ''20240101T100000Z''" "strftime (ex_clock 5) = ''20240101T100500Z''"
    by (simp_all add: ex_strftime)
  have "valid_datetime (ex_clock 0) \<and> txt_file ''20240101T100000Z'' = txt_file (strftime (ex_clock 0))"
    "valid_datetime (ex_clock 5) \<and> txt_file ''20240101T100500Z'' = txt_file (strftime (ex_clock 5))"
    by (simp_all add: s ex_clock_valid)
  then have b: "\<forall>p\<in>set ?xs. \<exists>t. valid_datetime t \<and> p = txt_file (strftime t)"
    by (simp only: list.set ball_simps) blast
  have c: "\<forall>p\<in>set ?xs. ?fs p \<noteq> None" by simp
  have "assemble ?xs ?fs = assemble ?ys ?fs"
    using assemble_deterministic [OF a b c] by (rule conjunct1)
  with a show ?thesis by (rule conjI)
qed

subsection \<open>C8: identifiers sort chronologically\<close>

text \<open>
  C8. For two valid start timestamps the segment identifiers compare as strings exactly
  as the timestamps compare chronologically at seconds resolution: the earlier second has
  the lexically smaller identifier, the identifiers are equal exactly when the
  timestamps agree down to the second, and a timestamp at least one second (a million
  microseconds) earlier than another has the smaller identifier. (Tuples are ordered
  lexicographically, strings by code point.)
\<close>

theorem segment_id_order:
  assumes "valid_datetime t1" and "valid_datetime t2"
  shows "(strftime t1 < strftime t2 \<longleftrightarrow> to_second t1 < to_second t2)
    \<and> (strftime t1 = strftime t2 \<longleftrightarrow> to_second t1 = to_second t2)
    \<and> (microseconds t1 + 1000000 \<le> microseconds t2 \<longrightarrow> strftime t1 < strftime t2)"
  using assms one_second_apart [OF assms] by (simp add: strftime_less strftime_eq)

theorem segment_id_order_witness:
  "valid_datetime \<lparr>year = 2024, month = 1, day = 1, hour = 10, minute = 0, second = 0,
      microsecond = 250\<rparr>
   \<and> valid_datetime \<lparr>year = 2024, month = 1, day = 1, hour = 10, minute = 5, second = 0,
      microsecond = 7\<rparr>
   \<and> strftime \<lparr>year = 2024, month = 1, day = 1, hour = 10, minute = 0, second = 0,
      microsecond = 250\<rparr>
     < strftime \<lparr>year = 2024, month = 1, day = 1, hour = 10, minute = 5, second = 0,
      microsecond = 7\<rparr>"
proof -
  let ?a = "\<lparr>year = 2024, month = 1, day = 1, hour = 10, minute = 0, second = 0,
      microsecond = 250\<rparr>"
  let ?b = "\<lparr>year = 2024, month = 1, day = 1, hour = 10, minute = 5, second = 0,
      microsecond = 7\<rparr>"
  have a: "valid_datetime ?a" and b: "valid_datetime ?b"
    by (simp_all add: valid_datetime_def days_in_month_def)
  have "to_second ?a < to_second ?b" by (simp add: to_second_def)
  with segment_id_order [OF a b] a b show ?thesis by simp
qed

subsection \<open>C9: no transcript at all\<close>

text \<open>
  C9, as amended. \<open>main\<close> reports that there is no transcript, leaving the file system
  as it was, exactly when SIGINT arrived before any worker was spawned.
\<close>

theorem no_transcripts_iff_no_worker:
  "main t0 evs order fs = Some (NoTranscripts, fs')
     \<longleftrightarrow> Sigint \<in> set evs \<and> tasks (recorder_loop t0 evs) = [] \<and> fs' = fs"
proof
  assume "Sigint \<in> set evs \<and> tasks (recorder_loop t0 evs) = [] \<and> fs' = fs"
  then show "main t0 evs order fs = Some (NoTranscripts, fs')"
    by (simp add: main_gather gather_Nil assemble_def concatenate_def)
next
  let ?ws = "tasks (recorder_loop t0 evs)"
  assume m: "main t0 evs order fs = Some (NoTranscripts, fs')"
  then have stop: "Sigint \<in> set evs"
    by (auto simp: main_def stop_event_iff Let_def split: if_splits)
  with m obtain txt_files joined f where g: "gather ?ws order fs = Some (Inr txt_files, joined, f)"
    and a: "assemble txt_files f = (NoTranscripts, fs')"
    by (auto simp: main_gather split: option.splits sum.splits prod.splits)
  from a have "sort txt_files = []"
    unfolding assemble_def by (rule concatenate_NoTranscripts)
  then have "txt_files = []" by (metis length_0_conv length_sort)
  moreover have "length txt_files = length ?ws" using gather_joined [OF g] by simp
  ultimately have ws: "?ws = []" by simp
  with m stop have "fs' = fs"
    by (simp add: main_gather gather_Nil assemble_def concatenate_def)
  with stop ws show "Sigint \<in> set evs \<and> ?ws = [] \<and> fs' = fs" by simp
qed

text \<open>
  C9 as stated fails: when the only worker fails, no segment is transcribed, yet
  \<open>main\<close> ends with the unhandled error instead of the report.
\<close>

theorem no_transcripts_counterexample:
  "main (ex_clock 0) [ProcExit ex_no_transcript (ex_clock 5), Sigint] [0] Map.empty
     = Some (Unhandled (APIError ''503''), Map.empty)"
  by (simp add: ex_eval)

subsection \<open>C10: the format of the document\<close>

text \<open>
  C10. For a non-empty list of transcripts named by valid timestamps and present in the
  file system, the concatenation writes \<open>temp/dialog_<first>_<last>.txt\<close>, whose content is,
  for each transcript in turn, the line \<open>----- <id> -----\<close>, a newline, the text and two
  newlines; so the document ends with the last text followed by two newlines.
\<close>

theorem document_format:
  assumes "ids \<noteq> []"
    and "\<forall>b\<in>set ids. \<exists>t. valid_datetime t \<and> b = strftime t"
    and "\<forall>b\<in>set ids. fs (joinpath TEMP_DIR (b @ ''.txt'')) = Some (body b)"
  shows "concatenate (map (\<lambda>b. joinpath TEMP_DIR (b @ ''.txt'')) ids) fs =
      (Ready (joinpath TEMP_DIR (''dialog_'' @ hd ids @ ''_'' @ last ids @ ''.txt'')),
       fs(joinpath TEMP_DIR (''dialog_'' @ hd ids @ ''_'' @ last ids @ ''.txt'') \<mapsto>
          concat (map (\<lambda>b. ''----- '' @ b @ '' -----'' @ [NL] @ body b @ [NL, NL]) ids)))
    \<and> (\<exists>pre. concat (map (\<lambda>b. ''----- '' @ b @ '' -----'' @ [NL] @ body b @ [NL, NL]) ids)
          = pre @ ''----- '' @ last ids @ '' -----'' @ [NL] @ body (last ids) @ [NL, NL])"
proof -
  let ?ts = "map txt_file ids"
  let ?e = "\<lambda>b. ''----- '' @ b @ '' -----'' @ [NL] @ body b @ [NL, NL]"
  have len: "\<forall>b\<in>set ids. length b = 16" using assms(2) by (auto simp: length_strftime)
  then have nonempty: "\<forall>b\<in>set ids. b \<noteq> []" by auto
  have tne: "?ts \<noteq> []" using assms(1) by simp
  have hl: "hd ids \<in> set ids" "last ids \<in> set ids" using assms(1) by simp_all
  have st: "stem (hd ?ts) = hd ids" "stem (last ?ts) = last ids"
    using assms(1) hl nonempty by (simp_all add: hd_map last_map stem_txt_file)
  have notin: "dialog (stem (hd ?ts)) (stem (last ?ts)) \<notin> set ?ts"
    unfolding st using len hl(1) by (auto simp: dialog_neq_txt_file)
  have rd: "\<forall>t\<in>set ?ts. fs t \<noteq> None" using assms(3) by (simp add: txt_file_def)
  have m: "map (\<lambda>t. (stem t, contents fs t)) ?ts = map (\<lambda>b. (b, body b)) ids"
    using assms(3) nonempty by (simp add: stem_txt_file contents_def txt_file_def [symmetric])
  have ent: "document (map (\<lambda>t. (stem t, contents fs t)) ?ts) = concat (map ?e ids)"
    unfolding m by (simp add: document_def entry_def comp_def)
  have "concatenate ?ts fs = (Ready (dialog (stem (hd ?ts)) (stem (last ?ts))),
      fs(dialog (stem (hd ?ts)) (stem (last ?ts)) \<mapsto> document (map (\<lambda>t. (stem t, contents fs t)) ?ts)))"
    by (rule concatenate_ok [OF tne notin rd])
  then have 1: "concatenate ?ts fs = (Ready (dialog (hd ids) (last ids)),
      fs(dialog (hd ids) (last ids) \<mapsto> concat (map ?e ids)))"
    by (simp only: st ent)
  have "ids = butlast ids @ [last ids]" using assms(1) by simp
  then have "concat (map ?e ids) = concat (map ?e (butlast ids)) @ ?e (last ids)"
    by (metis (no_types, lifting) append_Nil2 concat.simps concat_append list.simps(8,9) map_append)
  then have 2: "\<exists>pre. concat (map ?e ids) = pre @ ?e (last ids)" by blast
  show ?thesis using 1 2 unfolding txt_file_def dialog_def by blast
qed

theorem document_format_witness:
  "concatenate
     (map (\<lambda>b. joinpath TEMP_DIR (b @ ''.txt'')) [''20240101T100000Z'', ''20240101T100500Z''])
     ex_files
   = (Ready [''temp'', ''dialog_20240101T100000Z_20240101T100500Z.txt''],
      ex_files([''temp'', ''dialog_20240101T100000Z_20240101T100500Z.txt''] \<mapsto>
         ''----- 20240101T100000Z -----'' @ [NL] @ ''one'' @ [NL, NL]
         @ ''----- 20240101T100500Z -----'' @ [NL] @ ''two'' @ [NL, NL]))"
proof -
  let ?ids = "[''20240101T100000Z'', ''20240101T100500Z'']"
  let ?body = "\<lambda>b. if b = ''20240101T100000Z'' then ''one'' else ''two''"
  have a: "?ids \<noteq> []" by simp
  have s: "strftime (ex_clock 0) = ''20240101T100000Z''" "strftime (ex_clock 5) = ''20240101T100500Z''"
    by (simp_all add: ex_strftime)
  have "valid_datetime (ex_clock 0) \<and> ''20240101T100000Z'' = strftime (ex_clock 0)"
    "valid_datetime (ex_clock 5) \<and> ''20240101T100500Z'' = strftime (ex_clock 5)"
    by (simp_all add: s ex_clock_valid)
  then have b: "\<forall>b\<in>set ?ids. \<exists>t. valid_datetime t \<and> b = strftime t"
    by (simp only: list.set ball_simps) blast
  have c: "\<forall>b\<in>set ?ids. ex_files (joinpath TEMP_DIR (b @ ''.txt'')) = Some (?body b)"
    by (simp add: ex_files_def txt_file_def joinpath_def)
  from document_format [OF a b c, THEN conjunct1]
  show ?thesis by (simp add: joinpath_def TEMP_DIR_def)
qed

end
